theory Spec2Isabelle
  imports Main "HOL-Library.Word"
begin

section \<open>The circular buffer of \<^verbatim>\<open>circularBuffer/C++/cBuff.hpp\<close>\<close>

text \<open>
  The class \<^verbatim>\<open>CircularBuff<T>\<close> is a fixed-capacity ring over one array, with two
  cursors of type \<^verbatim>\<open>size_t\<close> and a flag that tells a full ring from an empty one.
  The embedding keeps the cursors as 64-bit words, so every \<^verbatim>\<open>+\<close>, \<^verbatim>\<open>-\<close> and
  \<^verbatim>\<open>%\<close> of the source wraps as it does there. What C++ leaves undefined (a subscript
  outside the array, a remainder by zero) is a \<open>fault\<close> value of the operation.
  The mutex of the class serialises the operations; each one is modelled as one
  atomic step on the state.
\<close>

subsection \<open>Data\<close>

type_synonym size_t = "64 word"

datatype fault = OutOfBounds | ModuloByZero

record 'a CircularBuff =
  m_buf :: "'a list"
  m_head :: size_t
  m_tail :: size_t
  m_maxSize :: size_t
  m_full :: bool

definition CIRCULAR_BUFF_DEFAULT_SIZE :: size_t where
  "CIRCULAR_BUFF_DEFAULT_SIZE = 4 * 1024"

subsection \<open>Checked primitives\<close>

text \<open>\<^verbatim>\<open>a % b\<close> on \<^verbatim>\<open>size_t\<close>: undefined when \<open>b\<close> is zero.\<close>

definition umod :: "size_t \<Rightarrow> size_t \<Rightarrow> fault + size_t" where
  "umod a b = (if b = 0 then Inl ModuloByZero else Inr (a mod b))"

text \<open>\<^verbatim>\<open>arr[i] = v\<close> and \<^verbatim>\<open>arr[i]\<close>: undefined when \<open>i\<close> is not a slot of the array.\<close>

definition store :: "'a list \<Rightarrow> size_t \<Rightarrow> 'a \<Rightarrow> fault + 'a list" where
  "store arr i v = (if unat i < length arr then Inr (arr[unat i := v]) else Inl OutOfBounds)"

definition load :: "'a list \<Rightarrow> size_t \<Rightarrow> fault + 'a" where
  "load arr i = (if unat i < length arr then Inr (arr ! unat i) else Inl OutOfBounds)"

subsection \<open>Construction\<close>

text \<open>
  \<^verbatim>\<open>new T[size]\<close> default-initialises the slots: \<open>T()\<close> for a class type, an
  indeterminate value for a scalar. The argument \<open>mem\<close> is what the fresh storage
  holds, slot by slot. The constructor has no check and no failing path of its own.
\<close>

definition CircularBuff :: "(nat \<Rightarrow> 'a) \<Rightarrow> size_t \<Rightarrow> fault + 'a CircularBuff" where
  "CircularBuff mem sz =
     Inr \<lparr>m_buf = map mem [0..<unat sz], m_head = 0, m_tail = 0,
          m_maxSize = sz, m_full = False\<rparr>"

definition CircularBuff_default :: "(nat \<Rightarrow> 'a) \<Rightarrow> fault + 'a CircularBuff" where
  "CircularBuff_default mem = CircularBuff mem CIRCULAR_BUFF_DEFAULT_SIZE"

subsection \<open>Reset and queries\<close>

definition reset :: "'a CircularBuff \<Rightarrow> 'a CircularBuff" where
  "reset b = b\<lparr>m_head := m_tail b, m_full := False\<rparr>"

definition empty_cb :: "'a CircularBuff \<Rightarrow> bool" where
  "empty_cb b = (if True \<noteq> m_full b \<and> m_head b = m_tail b then True else False)"

definition full :: "'a CircularBuff \<Rightarrow> bool" where
  "full b = m_full b"

definition capacity :: "'a CircularBuff \<Rightarrow> size_t" where
  "capacity b = m_maxSize b"

definition size_cb :: "'a CircularBuff \<Rightarrow> size_t" where
  "size_cb b =
     (if True \<noteq> m_full b then
        (if m_head b \<ge> m_tail b then m_head b - m_tail b
         else m_maxSize b + m_head b - m_tail b)
      else m_maxSize b)"

subsection \<open>Single-element operations\<close>

definition put :: "'a \<Rightarrow> 'a CircularBuff \<Rightarrow> fault + 'a CircularBuff" where
  "put item b =
     (case store (m_buf b) (m_head b) item of
        Inl e \<Rightarrow> Inl e
      | Inr buf' \<Rightarrow>
          (case (if m_full b then umod (m_tail b + 1) (m_maxSize b) else Inr (m_tail b)) of
             Inl e \<Rightarrow> Inl e
           | Inr tail' \<Rightarrow>
               (case umod (m_head b + 1) (m_maxSize b) of
                  Inl e \<Rightarrow> Inl e
                | Inr head' \<Rightarrow>
                    Inr (b\<lparr>m_buf := buf', m_tail := tail', m_head := head',
                           m_full := (head' = tail')\<rparr>))))"

text \<open>\<open>T0\<close> is the value \<^verbatim>\<open>T()\<close> of the element type.\<close>

definition get :: "'a \<Rightarrow> 'a CircularBuff \<Rightarrow> fault + ('a \<times> 'a CircularBuff)" where
  "get T0 b =
     (if True = empty_cb b then Inr (T0, b)
      else
        (case load (m_buf b) (m_tail b) of
           Inl e \<Rightarrow> Inl e
         | Inr val \<Rightarrow>
             (case umod (m_tail b + 1) (m_maxSize b) of
                Inl e \<Rightarrow> Inl e
              | Inr tail' \<Rightarrow> Inr (val, b\<lparr>m_full := False, m_tail := tail'\<rparr>))))"

subsection \<open>Bulk operations\<close>

text \<open>
  The two \<^verbatim>\<open>for\<close> loops, with their counter \<open>i\<close> of type \<^verbatim>\<open>size_t\<close>. The caller's
  array \<open>buff\<close> is a list; a subscript outside it is a fault.
\<close>

function write_loop :: "'a list \<Rightarrow> size_t \<Rightarrow> size_t \<Rightarrow> 'a CircularBuff \<Rightarrow> fault + 'a CircularBuff" where
  "write_loop buff sz i b =
     (if i < sz then
        (case load buff i of
           Inl e \<Rightarrow> Inl e
         | Inr item \<Rightarrow>
             (case put item b of
                Inl e \<Rightarrow> Inl e
              | Inr b' \<Rightarrow> write_loop buff sz (i + 1) b'))
      else Inr b)"
  by pat_completeness auto
termination
  by (relation "measure (\<lambda>(buff, sz, i, b). unat sz - unat i)")
     (simp, clarsimp, unat_arith)

declare write_loop.simps [simp del]

definition write_cb :: "'a list \<Rightarrow> size_t \<Rightarrow> 'a CircularBuff \<Rightarrow> fault + 'a CircularBuff" where
  "write_cb buff sz b = write_loop buff sz 0 b"

function read_loop ::
  "'a \<Rightarrow> 'a list \<Rightarrow> size_t \<Rightarrow> size_t \<Rightarrow> 'a CircularBuff \<Rightarrow> fault + (size_t \<times> 'a list \<times> 'a CircularBuff)" where
  "read_loop T0 buff sz i b =
     (if i < sz then
        (if True = empty_cb b then Inr (i, buff, b)
         else
           (case get T0 b of
              Inl e \<Rightarrow> Inl e
            | Inr (val, b') \<Rightarrow>
                (case store buff i val of
                   Inl e \<Rightarrow> Inl e
                 | Inr buff' \<Rightarrow> read_loop T0 buff' sz (i + 1) b')))
      else Inr (i, buff, b))"
  by pat_completeness auto
termination
  by (relation "measure (\<lambda>(T0, buff, sz, i, b). unat sz - unat i)")
     (simp, clarsimp, unat_arith)

declare read_loop.simps [simp del]

text \<open>\<open>read\<close> returns the count \<open>i\<close>, the caller's array as it leaves it, and the buffer.\<close>

definition read ::
  "'a \<Rightarrow> 'a list \<Rightarrow> size_t \<Rightarrow> 'a CircularBuff \<Rightarrow> fault + (size_t \<times> 'a list \<times> 'a CircularBuff)" where
  "read T0 buff sz b = read_loop T0 buff sz 0 b"

subsection \<open>Well-formed states\<close>

text \<open>
  The state invariant: the array has \<open>m_maxSize\<close> slots, both cursors are below
  \<open>m_maxSize\<close> (so the capacity is positive), and the flag is set only where the
  cursors meet.
\<close>

definition cb_inv :: "'a CircularBuff \<Rightarrow> bool" where
  "cb_inv b =
     (length (m_buf b) = unat (m_maxSize b) \<and> m_head b < m_maxSize b \<and>
      m_tail b < m_maxSize b \<and> (m_full b \<longrightarrow> m_head b = m_tail b))"

text \<open>
  The unread elements, oldest first: \<open>size_cb b\<close> slots of the ring, from the tail
  cursor onwards.
\<close>

definition contents :: "'a CircularBuff \<Rightarrow> 'a list" where
  "contents b =
     map (\<lambda>k. m_buf b ! ((unat (m_tail b) + k) mod unat (m_maxSize b)))
       [0..<unat (size_cb b)]"

text \<open>
  The states of a buffer constructed with a positive capacity and then used through
  its public operations, none of which faulted.
\<close>

inductive reachable :: "'a CircularBuff \<Rightarrow> bool" where
  r_ctor: "0 < sz \<Longrightarrow> CircularBuff mem sz = Inr b \<Longrightarrow> reachable b"
| r_put: "reachable b \<Longrightarrow> put x b = Inr b' \<Longrightarrow> reachable b'"
| r_get: "reachable b \<Longrightarrow> get T0 b = Inr (v, b') \<Longrightarrow> reachable b'"
| r_reset: "reachable b \<Longrightarrow> reachable (reset b)"
| r_write: "reachable b \<Longrightarrow> write_cb buff sz b = Inr b' \<Longrightarrow> reachable b'"
| r_read: "reachable b \<Longrightarrow> read T0 buff sz b = Inr (n, buff', b') \<Longrightarrow> reachable b'"

text \<open>
  \<open>put\<close> on a full buffer in the order of the specification's words: advance the
  tail cursor by one slot modulo the capacity, then write the item at the head cursor,
  advance the head cursor and recompute the flag. It is compared with \<open>put\<close> below.
\<close>

definition put_full_spec :: "'a \<Rightarrow> 'a CircularBuff \<Rightarrow> 'a CircularBuff" where
  "put_full_spec item b =
     (let b1 = b\<lparr>m_tail := (m_tail b + 1) mod m_maxSize b\<rparr>;
          b2 = b1\<lparr>m_buf := (m_buf b1)[unat (m_head b1) := item]\<rparr>;
          b3 = b2\<lparr>m_head := (m_head b2 + 1) mod m_maxSize b2\<rparr>
      in b3\<lparr>m_full := (m_head b3 = m_tail b3)\<rparr>)"

section \<open>Cursor arithmetic\<close>

lemma unat_succ_below: "i < (sz :: size_t) \<Longrightarrow> unat (i + 1) = Suc (unat i)"
proof -
  assume "i < sz"
  then have "unat i < unat sz" by (simp add: word_less_nat_alt)
  moreover have "unat sz < 2 ^ 64" using unsigned_less [of sz, where ?'a = nat] by simp
  ultimately have "Suc (unat i) < 2 ^ 64" by simp
  then show ?thesis by (simp add: unat_word_ariths)
qed

lemma unat_next: "i < (c :: size_t) \<Longrightarrow> unat ((i + 1) mod c) = Suc (unat i) mod unat c"
  by (simp add: unat_mod_distrib unat_succ_below)

lemma next_below: "i < (c :: size_t) \<Longrightarrow> (i + 1) mod c < c"
  by (rule word_mod_less_divisor) (use word_gt_0 in force)

lemma size_branch_le: "t \<le> (h :: size_t) \<Longrightarrow> unat (h - t) = unat h - unat t"
  by (simp add: unat_sub)

text \<open>
  The second branch of \<open>size\<close>: the sum \<open>c + h\<close> may wrap, the difference does not.
\<close>

lemma size_branch_gt:
  "h < t \<Longrightarrow> t < c \<Longrightarrow> unat (c + h - t :: size_t) = unat c + unat h - unat t"
  by unat_arith

lemma ring_index:
  "T < (C::nat) \<Longrightarrow> k \<le> C \<Longrightarrow> (T + k) mod C = (if T + k < C then T + k else T + k - C)"
  by (simp add: le_mod_geq)

lemma ring_size:
  "H < (C::nat) \<Longrightarrow> T < C \<Longrightarrow> (C + H - T) mod C = (if T \<le> H then H - T else C + H - T)"
  by (auto simp: le_mod_geq)

section \<open>Single steps on a well-formed state\<close>

lemma cb_inv_nonzero: "cb_inv b \<Longrightarrow> m_maxSize b \<noteq> 0"
  by (auto simp: cb_inv_def)

lemma cb_inv_unat:
  "cb_inv b \<Longrightarrow> unat (m_head b) < unat (m_maxSize b) \<and> unat (m_tail b) < unat (m_maxSize b)"
  by (simp add: cb_inv_def word_less_nat_alt)

lemma put_ok:
  assumes "cb_inv b"
  shows "put x b =
     Inr (b\<lparr>m_buf := (m_buf b)[unat (m_head b) := x],
            m_tail := (if m_full b then (m_tail b + 1) mod m_maxSize b else m_tail b),
            m_head := (m_head b + 1) mod m_maxSize b,
            m_full := ((m_head b + 1) mod m_maxSize b =
                       (if m_full b then (m_tail b + 1) mod m_maxSize b else m_tail b))\<rparr>)"
proof -
  from assms have nz: "m_maxSize b \<noteq> 0" by (rule cb_inv_nonzero)
  from assms have "unat (m_head b) < length (m_buf b)"
    by (simp add: cb_inv_def word_less_nat_alt)
  with nz show ?thesis by (simp add: put_def store_def umod_def)
qed

lemma get_ok:
  assumes "cb_inv b" and "\<not> empty_cb b"
  shows "get T0 b =
     Inr (m_buf b ! unat (m_tail b),
          b\<lparr>m_full := False, m_tail := (m_tail b + 1) mod m_maxSize b\<rparr>)"
proof -
  from assms have nz: "m_maxSize b \<noteq> 0" by (simp add: cb_inv_nonzero)
  from assms have "unat (m_tail b) < length (m_buf b)"
    by (simp add: cb_inv_def word_less_nat_alt)
  with nz assms(2) show ?thesis by (simp add: get_def load_def umod_def)
qed

lemma get_empty: "empty_cb b \<Longrightarrow> get T0 b = Inr (T0, b)"
  by (simp add: get_def)

lemma put_inv:
  assumes "cb_inv b" and "put x b = Inr b'"
  shows "cb_inv b'"
proof -
  from assms(1) have h: "m_head b < m_maxSize b" and t: "m_tail b < m_maxSize b"
    by (simp_all add: cb_inv_def)
  from assms show ?thesis
    using next_below [OF h] next_below [OF t]
    by (auto simp: put_ok cb_inv_def)
qed

lemma get_inv:
  assumes "cb_inv b" and "get T0 b = Inr (v, b')"
  shows "cb_inv b'"
proof (cases "empty_cb b")
  case True
  with assms show ?thesis by (simp add: get_empty)
next
  case False
  from assms(1) have t: "m_tail b < m_maxSize b" by (simp add: cb_inv_def)
  from assms False show ?thesis
    using next_below [OF t] by (auto simp: get_ok cb_inv_def)
qed

lemma reset_inv: "cb_inv b \<Longrightarrow> cb_inv (reset b)"
  by (simp add: cb_inv_def reset_def)

lemma ctor_inv: "0 < sz \<Longrightarrow> CircularBuff mem sz = Inr b \<Longrightarrow> cb_inv b"
  by (auto simp: CircularBuff_def cb_inv_def)

lemma unat_size_cb:
  assumes "cb_inv b"
  shows "unat (size_cb b) =
     (if m_full b then unat (m_maxSize b)
      else (unat (m_maxSize b) + unat (m_head b) - unat (m_tail b)) mod unat (m_maxSize b))"
proof -
  from assms have h: "unat (m_head b) < unat (m_maxSize b)"
    and t: "unat (m_tail b) < unat (m_maxSize b)" and t': "m_tail b < m_maxSize b"
    by (simp_all add: cb_inv_def word_less_nat_alt)
  show ?thesis
  proof (cases "m_tail b \<le> m_head b")
    case True
    then have "unat (m_tail b) \<le> unat (m_head b)" by (simp add: word_le_nat_alt)
    with True h t show ?thesis by (simp add: size_cb_def size_branch_le ring_size)
  next
    case False
    then have lt: "m_head b < m_tail b" by simp
    then have "unat (m_head b) < unat (m_tail b)" by (simp add: word_less_nat_alt)
    with False h t size_branch_gt [OF lt t'] show ?thesis
      by (simp add: size_cb_def ring_size)
  qed
qed

lemma size_le_capacity: "cb_inv b \<Longrightarrow> unat (size_cb b) \<le> unat (m_maxSize b)"
  using cb_inv_unat [of b] by (auto simp: unat_size_cb intro: less_imp_le)

lemma length_contents: "length (contents b) = unat (size_cb b)"
  by (simp add: contents_def)

lemma empty_iff_size:
  assumes "cb_inv b"
  shows "empty_cb b \<longleftrightarrow> size_cb b = 0"
proof -
  have "size_cb b = 0 \<longleftrightarrow> unat (size_cb b) = 0" by (simp add: unat_eq_zero)
  moreover have "m_head b = m_tail b \<longleftrightarrow> unat (m_head b) = unat (m_tail b)"
    by (simp add: word_unat_eq_iff)
  ultimately show ?thesis
    using assms cb_inv_unat [OF assms]
    by (auto simp: unat_size_cb ring_size empty_cb_def)
qed

section \<open>The unread elements across one step\<close>

lemma ring_succ: "T < (C::nat) \<Longrightarrow> Suc T mod C = (if Suc T < C then Suc T else 0)"
  by (auto simp: mod_Suc)

lemma size_after_get:
  assumes "cb_inv b" and "\<not> empty_cb b"
  shows "unat (size_cb (b\<lparr>m_full := False, m_tail := (m_tail b + 1) mod m_maxSize b\<rparr>)) =
         unat (size_cb b) - 1 \<and> 0 < unat (size_cb b)"
proof -
  let ?b' = "b\<lparr>m_full := False, m_tail := (m_tail b + 1) mod m_maxSize b\<rparr>"
  let ?C = "unat (m_maxSize b)" and ?H = "unat (m_head b)" and ?T = "unat (m_tail b)"
  from assms(1) have t: "m_tail b < m_maxSize b" by (simp add: cb_inv_def)
  from cb_inv_unat [OF assms(1)] have lt: "?T < ?C" "?H < ?C" by simp_all
  have i': "cb_inv ?b'" using assms(1) next_below [OF t] by (simp add: cb_inv_def)
  have T': "unat (m_tail ?b') = (if Suc ?T < ?C then Suc ?T else 0)"
    using unat_next [OF t] lt by (simp add: ring_succ)
  have ne: "m_full b \<or> ?H \<noteq> ?T"
    using assms(2) by (auto simp: empty_cb_def word_unat_eq_iff)
  have fl: "m_full b \<Longrightarrow> ?H = ?T" using assms(1) by (simp add: cb_inv_def)
  show ?thesis
    using unat_size_cb [OF i'] unat_size_cb [OF assms(1)] T' lt ne fl
    by (auto simp: ring_size split: if_splits)
qed

lemma contents_get:
  assumes "cb_inv b" and "\<not> empty_cb b"
  shows "contents b = m_buf b ! unat (m_tail b) #
           contents (b\<lparr>m_full := False, m_tail := (m_tail b + 1) mod m_maxSize b\<rparr>)"
proof -
  let ?b' = "b\<lparr>m_full := False, m_tail := (m_tail b + 1) mod m_maxSize b\<rparr>"
  let ?C = "unat (m_maxSize b)" and ?T = "unat (m_tail b)"
  let ?f = "\<lambda>k. m_buf b ! ((?T + k) mod ?C)"
  from assms(1) have t: "m_tail b < m_maxSize b" by (simp add: cb_inv_def)
  from cb_inv_unat [OF assms(1)] have lt: "?T < ?C" by simp
  from size_after_get [OF assms] obtain n where n: "unat (size_cb b) = Suc n"
    and n': "unat (size_cb ?b') = n" by (cases "unat (size_cb b)") auto
  have "contents b = map ?f [0..<Suc n]" by (simp add: contents_def n)
  also have "\<dots> = ?f 0 # map (\<lambda>k. ?f (Suc k)) [0..<n]"
    by (simp only: upt_conv_Cons [of 0] list.map map_Suc_upt [symmetric] map_map o_def)
  also have "?f 0 = m_buf b ! ?T" using lt by simp
  also have "map (\<lambda>k. ?f (Suc k)) [0..<n] = contents ?b'"
    using unat_next [OF t] by (simp add: contents_def n' mod_add_left_eq del: upt_Suc)
  finally show ?thesis .
qed

lemma ring_last:
  "H < (C::nat) \<Longrightarrow> T < C \<Longrightarrow> (T + (C + H - T) mod C) mod C = H"
  by (auto simp: ring_size ring_index)

lemma ring_miss:
  "H < (C::nat) \<Longrightarrow> T < C \<Longrightarrow> k < (C + H - T) mod C \<Longrightarrow> H \<noteq> (T + k) mod C"
  by (auto simp: ring_size ring_index split: if_splits)

lemma ring_miss_full: "T < (C::nat) \<Longrightarrow> Suc k < C \<Longrightarrow> T \<noteq> (T + Suc k) mod C"
  using ring_index [of T C "Suc k"] by (auto split: if_splits)

lemma size_after_put:
  assumes "cb_inv b" and "put x b = Inr b'"
  shows "unat (size_cb b') =
     (if m_full b then unat (m_maxSize b) else Suc (unat (size_cb b)))"
proof -
  let ?C = "unat (m_maxSize b)" and ?H = "unat (m_head b)" and ?T = "unat (m_tail b)"
  from assms(1) have h: "m_head b < m_maxSize b" and t: "m_tail b < m_maxSize b"
    by (simp_all add: cb_inv_def)
  from cb_inv_unat [OF assms(1)] have lt: "?T < ?C" "?H < ?C" by simp_all
  have i': "cb_inv b'" using assms by (rule put_inv)
  have fl: "m_full b \<Longrightarrow> ?H = ?T" using assms(1) by (simp add: cb_inv_def)
  have b': "m_maxSize b' = m_maxSize b"
    "unat (m_head b') = (if Suc ?H < ?C then Suc ?H else 0)"
    "unat (m_tail b') = (if m_full b then (if Suc ?T < ?C then Suc ?T else 0) else ?T)"
    "m_full b' \<longleftrightarrow> unat (m_head b') = unat (m_tail b')"
    using assms unat_next [OF h] unat_next [OF t] lt
    by (auto simp: put_ok ring_succ word_unat_eq_iff)
  show ?thesis
    using unat_size_cb [OF i'] unat_size_cb [OF assms(1)] b' lt fl
    by (auto simp: ring_size split: if_splits)
qed

lemma contents_put:
  assumes "cb_inv b" and "put x b = Inr b'"
  shows "contents b' = (if m_full b then tl (contents b) else contents b) @ [x]"
proof -
  let ?C = "unat (m_maxSize b)" and ?H = "unat (m_head b)" and ?T = "unat (m_tail b)"
  from assms(1) have h: "m_head b < m_maxSize b" and t: "m_tail b < m_maxSize b"
    and len: "length (m_buf b) = ?C"
    by (simp_all add: cb_inv_def)
  from cb_inv_unat [OF assms(1)] have lt: "?T < ?C" "?H < ?C" by simp_all
  from assms have buf': "m_buf b' = (m_buf b)[?H := x]" and cap': "m_maxSize b' = m_maxSize b"
    by (auto simp: put_ok)
  show ?thesis
  proof (cases "m_full b")
    case False
    let ?n = "unat (size_cb b)"
    from False have n: "?n = (?C + ?H - ?T) mod ?C" by (simp add: unat_size_cb [OF assms(1)])
    from False assms have tl': "m_tail b' = m_tail b" by (auto simp: put_ok)
    have "contents b' = map (\<lambda>k. (m_buf b)[?H := x] ! ((?T + k) mod ?C)) [0..<Suc ?n]"
      using size_after_put [OF assms] False by (simp only: contents_def buf' cap' tl' if_False)
    also have "\<dots> = map (\<lambda>k. (m_buf b)[?H := x] ! ((?T + k) mod ?C)) [0..<?n] @ [x]"
      using ring_last [OF lt(2) lt(1)] lt len by (simp add: n)
    also have "map (\<lambda>k. (m_buf b)[?H := x] ! ((?T + k) mod ?C)) [0..<?n] = contents b"
      unfolding contents_def using ring_miss [OF lt(2) lt(1)] by (auto simp: n)
    finally show ?thesis using False by simp
  next
    case True
    with assms(1) have ht: "?H = ?T" by (simp add: cb_inv_def)
    from True have n: "unat (size_cb b) = ?C" by (simp add: unat_size_cb [OF assms(1)])
    from lt obtain m where m: "?C = Suc m" by (cases ?C) auto
    from True assms have tl': "m_tail b' = (m_tail b + 1) mod m_maxSize b" by (auto simp: put_ok)
    have "contents b' =
        map (\<lambda>k. (m_buf b)[?T := x] ! ((Suc ?T mod ?C + k) mod ?C)) [0..<?C]"
      using size_after_put [OF assms] True unat_next [OF t]
      by (simp only: contents_def buf' cap' tl' ht if_True)
    also have "\<dots> = map (\<lambda>k. (m_buf b)[?T := x] ! ((?T + Suc k) mod ?C)) [0..<Suc m]"
      by (simp add: m mod_add_left_eq del: upt_Suc)
    also have "\<dots> = map (\<lambda>k. (m_buf b)[?T := x] ! ((?T + Suc k) mod ?C)) [0..<m] @ [x]"
    proof -
      have "(?T + Suc m) mod ?C = ?T" using lt by (simp add: m [symmetric])
      then have "(m_buf b)[?T := x] ! ((?T + Suc m) mod ?C) = x" using lt len by simp
      then show ?thesis by (simp only: upt_Suc_append [OF le0] map_append list.map)
    qed
    also have "map (\<lambda>k. (m_buf b)[?T := x] ! ((?T + Suc k) mod ?C)) [0..<m]
         = map (\<lambda>k. m_buf b ! ((?T + Suc k) mod ?C)) [0..<m]"
      using ring_miss_full [OF lt(1)] by (auto simp: m)
    also have "\<dots> = tl (contents b)"
      by (simp only: contents_def n m upt_conv_Cons [of 0 "Suc m"] zero_less_Suc list.map
            list.sel map_Suc_upt [symmetric] map_map o_def)
    finally show ?thesis using True by simp
  qed
qed

section \<open>The two loops on a well-formed state\<close>

lemma write_loop_ok:
  "cb_inv b \<Longrightarrow> unat sz \<le> length buff \<Longrightarrow>
   \<exists>b'. write_loop buff sz i b = Inr b' \<and> cb_inv b' \<and> m_maxSize b' = m_maxSize b"
proof (induction buff sz i b rule: write_loop.induct)
  case (1 buff sz i b)
  show ?case
  proof (cases "i < sz")
    case False
    with "1.prems" show ?thesis by (simp add: write_loop.simps [of buff sz i b])
  next
    case True
    with "1.prems" have ld: "load buff i = Inr (buff ! unat i)"
      by (simp add: load_def word_less_nat_alt)
    from "1.prems"(1) obtain b1 where p: "put (buff ! unat i) b = Inr b1"
      and i1: "cb_inv b1" and c1: "m_maxSize b1 = m_maxSize b"
      using put_inv [of b "buff ! unat i"] by (auto simp: put_ok)
    from "1.IH" [OF True ld p i1 "1.prems"(2)] c1 True ld p show ?thesis
      by (simp add: write_loop.simps [of buff sz i b])
  qed
qed

lemma size_of_empty: "empty_cb b \<Longrightarrow> size_cb b = 0"
  by (auto simp: empty_cb_def size_cb_def split: if_splits)

lemma splice_step:
  "i < length buff \<Longrightarrow>
   take (Suc i) (buff[i := v]) @ take k cs @ drop (Suc i + k) (buff[i := v]) =
   take i buff @ take (Suc k) (v # cs) @ drop (i + Suc k) buff"
  by (simp add: take_Suc_conv_app_nth)

lemma read_loop_spec:
  "cb_inv b \<Longrightarrow> i \<le> sz \<Longrightarrow>
   unat i + min (unat sz - unat i) (unat (size_cb b)) \<le> length buff \<Longrightarrow>
   \<exists>cnt b'. read_loop T0 buff sz i b =
       Inr (cnt,
            take (unat i) buff @ take (min (unat sz - unat i) (unat (size_cb b))) (contents b) @
              drop (unat i + min (unat sz - unat i) (unat (size_cb b))) buff,
            b') \<and>
     unat cnt = unat i + min (unat sz - unat i) (unat (size_cb b)) \<and>
     cb_inv b' \<and> contents b' = drop (min (unat sz - unat i) (unat (size_cb b))) (contents b) \<and>
     m_maxSize b' = m_maxSize b \<and> m_head b' = m_head b \<and> m_buf b' = m_buf b"
proof (induction T0 buff sz i b rule: read_loop.induct)
  case (1 T0 buff sz i b)
  let ?n = "min (unat sz - unat i) (unat (size_cb b))"
  show ?case
  proof (cases "i < sz \<and> \<not> empty_cb b")
    case False
    then have stop: "read_loop T0 buff sz i b = Inr (i, buff, b)"
      by (auto simp: read_loop.simps [of T0 buff sz i b])
    from False "1.prems"(2) have "i = sz \<or> size_cb b = 0"
      by (auto simp: size_of_empty)
    then have "?n = 0" by auto
    with stop "1.prems"(1) show ?thesis by simp
  next
    case True
    then have lt: "i < sz" and ne: "\<not> empty_cb b" by simp_all
    let ?v = "m_buf b ! unat (m_tail b)"
    let ?b1 = "b\<lparr>m_full := False, m_tail := (m_tail b + 1) mod m_maxSize b\<rparr>"
    have g: "get T0 b = Inr (?v, ?b1)" using "1.prems"(1) ne by (rule get_ok)
    have i1: "cb_inv ?b1" using "1.prems"(1) g by (rule get_inv)
    have c: "contents b = ?v # contents ?b1" using "1.prems"(1) ne by (rule contents_get)
    from size_after_get [OF "1.prems"(1) ne] obtain m where
      m: "unat (size_cb b) = Suc m" and m1: "unat (size_cb ?b1) = m"
      by (cases "unat (size_cb b)") auto
    from lt have ui: "unat i < unat sz" by (simp add: word_less_nat_alt)
    let ?n1 = "min (unat sz - Suc (unat i)) m"
    have n: "?n = Suc ?n1" using ui m by arith
    with "1.prems"(3) have il: "unat i < length buff" by simp
    then have st: "store buff i ?v = Inr (buff[unat i := ?v])" by (simp add: store_def)
    have nx: "unat (i + 1) = Suc (unat i)" using lt by (rule unat_succ_below)
    have le: "i + 1 \<le> sz" using ui nx by (simp add: word_le_nat_alt)
    have room: "unat (i + 1) + min (unat sz - unat (i + 1)) (unat (size_cb ?b1))
        \<le> length (buff[unat i := ?v])"
      using "1.prems"(3) n by (simp add: nx m1)
    have ne': "\<not> (True = empty_cb b)" using ne by simp
    from "1.IH" [OF lt ne' g [symmetric, THEN sym] refl st i1 le room]
    obtain cnt b' where
      r: "read_loop T0 (buff[unat i := ?v]) sz (i + 1) ?b1 =
           Inr (cnt, take (Suc (unat i)) (buff[unat i := ?v]) @ take ?n1 (contents ?b1) @
                  drop (Suc (unat i) + ?n1) (buff[unat i := ?v]), b')"
      and rest: "unat cnt = Suc (unat i) + ?n1" "cb_inv b'"
        "contents b' = drop ?n1 (contents ?b1)"
        "m_maxSize b' = m_maxSize b" "m_head b' = m_head b" "m_buf b' = m_buf b"
      by (auto simp: nx m1)
    have unf: "read_loop T0 buff sz i b = read_loop T0 (buff[unat i := ?v]) sz (i + 1) ?b1"
      using lt ne g st by (simp add: read_loop.simps [of T0 buff sz i b])
    have lists: "take (Suc (unat i)) (buff[unat i := ?v]) @ take ?n1 (contents ?b1) @
                  drop (Suc (unat i) + ?n1) (buff[unat i := ?v])
               = take (unat i) buff @ take ?n (contents b) @ drop (unat i + ?n) buff"
      unfolding n c using il by (rule splice_step)
    have cnt: "unat cnt = unat i + ?n" using rest(1) by (simp only: n add_Suc_right add_Suc)
    have dr: "contents b' = drop ?n (contents b)"
      using rest(3) by (simp only: n c drop_Suc_Cons)
    from unf r lists cnt dr rest(2,4,5,6) show ?thesis by simp
  qed
qed

lemma unat_min: "unat (min a b :: size_t) = min (unat a) (unat b)"
  by (simp add: min_def word_le_nat_alt)

lemma write_loop_inv:
  "cb_inv b \<Longrightarrow> write_loop buff sz i b = Inr b' \<Longrightarrow> cb_inv b'"
proof (induction buff sz i b rule: write_loop.induct)
  case (1 buff sz i b)
  show ?case
  proof (cases "i < sz")
    case False
    with "1.prems" show ?thesis by (simp add: write_loop.simps [of buff sz i b])
  next
    case True
    with "1.prems"(2) obtain item b1 where ld: "load buff i = Inr item"
      and p: "put item b = Inr b1" and w: "write_loop buff sz (i + 1) b1 = Inr b'"
      by (auto simp: write_loop.simps [of buff sz i b] split: sum.splits)
    from "1.prems"(1) p have "cb_inv b1" by (rule put_inv)
    with "1.IH" [OF True ld p] w show ?thesis by simp
  qed
qed

lemma read_loop_inv:
  "cb_inv b \<Longrightarrow> read_loop T0 buff sz i b = Inr (n, buff', b') \<Longrightarrow> cb_inv b'"
proof (induction T0 buff sz i b rule: read_loop.induct)
  case (1 T0 buff sz i b)
  show ?case
  proof (cases "i < sz \<and> \<not> empty_cb b")
    case False
    with "1.prems" show ?thesis
      by (auto simp: read_loop.simps [of T0 buff sz i b] split: if_splits)
  next
    case True
    with "1.prems"(2) obtain val b1 buff1 where g: "get T0 b = Inr (val, b1)"
      and st: "store buff i val = Inr buff1"
      and r: "read_loop T0 buff1 sz (i + 1) b1 = Inr (n, buff', b')"
      by (auto simp: read_loop.simps [of T0 buff sz i b] split: sum.splits if_splits)
    from "1.prems"(1) g have i1: "cb_inv b1" by (rule get_inv)
    from True have lt: "i < sz" and ne: "\<not> (True = empty_cb b)" by simp_all
    from "1.IH" [OF lt ne g refl st i1 r] show ?thesis .
  qed
qed

lemma reachable_inv: "reachable b \<Longrightarrow> cb_inv b"
proof (induction rule: reachable.induct)
  case (r_ctor sz mem b)
  then show ?case by (rule ctor_inv)
next
  case (r_put b x b')
  then show ?case by (simp add: put_inv)
next
  case (r_get b T0 v b')
  then show ?case by (simp add: get_inv)
next
  case (r_reset b)
  then show ?case by (simp add: reset_inv)
next
  case (r_write b buff sz b')
  then show ?case by (simp add: write_cb_def write_loop_inv)
next
  case (r_read b T0 buff sz n buff' b')
  then show ?case by (simp add: read_def read_loop_inv)
qed

section \<open>Properties of the operations\<close>

lemma put_not_empty: "cb_inv b \<Longrightarrow> put x b = Inr b' \<Longrightarrow> \<not> empty_cb b'"
  by (auto simp: put_ok empty_cb_def)

lemma put_zero_capacity: "CircularBuff mem 0 = Inr b \<Longrightarrow> put x b = Inl OutOfBounds"
  by (auto simp: CircularBuff_def put_def store_def)

lemma put_full_is_spec:
  assumes "cb_inv b" and "full b"
  shows "put x b = Inr (put_full_spec x b) \<and> full (put_full_spec x b) \<and>
         contents (put_full_spec x b) = tl (contents b) @ [x]"
proof -
  from assms have f: "m_full b" and ht: "m_head b = m_tail b"
    by (simp_all add: full_def cb_inv_def)
  have p: "put x b = Inr (put_full_spec x b)"
    using f ht by (simp add: put_ok [OF assms(1)] put_full_spec_def Let_def)
  from contents_put [OF assms(1) p] f p ht show ?thesis
    by (simp add: full_def put_full_spec_def Let_def)
qed

text \<open>The scenario of a buffer of capacity 5, step by step.\<close>

lemma fill_five:
  "\<exists>b0 b1 b2 b3 b4.
      CircularBuff mem 5 = Inr b0 \<and> put 1 b0 = Inr b1 \<and> put 2 b1 = Inr b2 \<and>
      put 3 b2 = Inr b3 \<and> put 4 b3 = Inr b4 \<and>
      put 5 b4 = Inr \<lparr>m_buf = [1, 2, 3, 4, 5 :: int], m_head = 0, m_tail = 0,
                       m_maxSize = 5, m_full = True\<rparr>"
  by (simp add: CircularBuff_def put_def store_def umod_def upt_rec)

lemma put_six:
  "put 6 \<lparr>m_buf = [1, 2, 3, 4, 5 :: int], m_head = 0, m_tail = 0, m_maxSize = 5, m_full = True\<rparr>
     = Inr \<lparr>m_buf = [6, 2, 3, 4, 5 :: int], m_head = 1, m_tail = 1, m_maxSize = 5, m_full = True\<rparr>"
  by (simp add: put_def store_def umod_def)

lemma drain_five:
  "\<exists>g1 g2 g3 g4 g5.
      get T0 \<lparr>m_buf = [6, 2, 3, 4, 5 :: int], m_head = 1, m_tail = 1,
              m_maxSize = 5, m_full = True\<rparr> = Inr (2, g1) \<and>
      get T0 g1 = Inr (3, g2) \<and> get T0 g2 = Inr (4, g3) \<and> get T0 g3 = Inr (5, g4) \<and>
      get T0 g4 = Inr (6, g5) \<and> empty_cb g5"
  by (simp add: get_def load_def umod_def empty_cb_def)

text \<open>
  Claim C1, as the code has it. The constructor checks nothing: with capacity 0 it
  returns a buffer, of capacity 0, empty, not full and of size 0. It reports no error.
  (The first \<open>put\<close> on that buffer stores outside its array: \<open>put_zero_capacity\<close>.)
\<close>

theorem ctor_zero_capacity:
  "\<exists>b. CircularBuff mem 0 = Inr b \<and> capacity b = 0 \<and> empty_cb b \<and> \<not> full b \<and> size_cb b = 0"
  by (simp add: CircularBuff_def capacity_def empty_cb_def full_def size_cb_def)

text \<open>
  The constructor called with 0 on a buffer of integers: it succeeds, and the \<open>put\<close>
  that follows stores at slot 0 of an array that has no slot.
\<close>

theorem ctor_zero_succeeds:
  "CircularBuff int 0 =
     Inr \<lparr>m_buf = [], m_head = 0, m_tail = 0, m_maxSize = 0, m_full = False\<rparr> \<and>
   put 1 \<lparr>m_buf = [], m_head = 0, m_tail = 0, m_maxSize = 0, m_full = False\<rparr> =
     Inl OutOfBounds"
  by (simp add: CircularBuff_def put_def store_def)

text \<open>
  Claim C2. A buffer of capacity 5 receives 1, 2, 3, 4, 5 and is full; after \<open>put 6\<close>
  it is still full, its size is 5, and five calls of \<open>get\<close> return 2, 3, 4, 5, 6 in
  that order and leave it empty: the value 1 is gone. In general, on a well-formed
  full buffer \<open>put\<close> does what the specification's order of steps does (tail cursor
  advanced modulo the capacity, item written at the head cursor, head cursor advanced),
  the buffer stays full, and the unread elements lose their oldest and gain the item
  at the end.
\<close>

theorem overwrite_on_full:
  "(\<exists>b0 b1 b2 b3 b4 b5 b6 g1 g2 g3 g4 g5.
      CircularBuff mem 5 = Inr b0 \<and> put 1 b0 = Inr b1 \<and> put 2 b1 = Inr b2 \<and>
      put 3 b2 = Inr b3 \<and> put 4 b3 = Inr b4 \<and> put (5 :: int) b4 = Inr b5 \<and> full b5 \<and>
      put 6 b5 = Inr b6 \<and> full b6 \<and> size_cb b6 = 5 \<and>
      get T0 b6 = Inr (2, g1) \<and> get T0 g1 = Inr (3, g2) \<and> get T0 g2 = Inr (4, g3) \<and>
      get T0 g3 = Inr (5, g4) \<and> get T0 g4 = Inr (6, g5) \<and> empty_cb g5) \<and>
   (cb_inv b \<longrightarrow> full b \<longrightarrow>
      put x b = Inr (put_full_spec x b) \<and> full (put_full_spec x b) \<and>
      contents (put_full_spec x b) = tl (contents b) @ [x])"
proof -
  let ?b5 = "\<lparr>m_buf = [1, 2, 3, 4, 5 :: int], m_head = 0, m_tail = 0, m_maxSize = 5 :: size_t, m_full = True\<rparr>"
  let ?b6 = "\<lparr>m_buf = [6, 2, 3, 4, 5 :: int], m_head = 1, m_tail = 1, m_maxSize = 5 :: size_t, m_full = True\<rparr>"
  have q: "full ?b5 \<and> full ?b6 \<and> size_cb ?b6 = 5" by (simp add: full_def size_cb_def)
  from fill_five [of mem] put_six drain_five [of T0] q
  have "\<exists>b0 b1 b2 b3 b4 b5 b6 g1 g2 g3 g4 g5.
      CircularBuff mem 5 = Inr b0 \<and> put 1 b0 = Inr b1 \<and> put 2 b1 = Inr b2 \<and>
      put 3 b2 = Inr b3 \<and> put 4 b3 = Inr b4 \<and> put (5 :: int) b4 = Inr b5 \<and> full b5 \<and>
      put 6 b5 = Inr b6 \<and> full b6 \<and> size_cb b6 = 5 \<and>
      get T0 b6 = Inr (2, g1) \<and> get T0 g1 = Inr (3, g2) \<and> get T0 g2 = Inr (4, g3) \<and>
      get T0 g3 = Inr (5, g4) \<and> get T0 g4 = Inr (6, g5) \<and> empty_cb g5"
    by blast
  with put_full_is_spec [of b x] show ?thesis by blast
qed

theorem overwrite_on_full_witness:
  "cb_inv \<lparr>m_buf = [7, 8, 9 :: int], m_head = 2, m_tail = 2, m_maxSize = 3, m_full = True\<rparr> \<and>
   full \<lparr>m_buf = [7, 8, 9 :: int], m_head = 2, m_tail = 2, m_maxSize = 3, m_full = True\<rparr> \<and>
   put 4 \<lparr>m_buf = [7, 8, 9 :: int], m_head = 2, m_tail = 2, m_maxSize = 3, m_full = True\<rparr> =
     Inr \<lparr>m_buf = [7, 8, 4], m_head = 0, m_tail = 0, m_maxSize = 3, m_full = True\<rparr> \<and>
   contents \<lparr>m_buf = [7, 8, 4 :: int], m_head = 0, m_tail = 0, m_maxSize = 3, m_full = True\<rparr> =
     [7, 8, 4]"
proof -
  let ?b = "\<lparr>m_buf = [7, 8, 9 :: int], m_head = 2, m_tail = 2, m_maxSize = 3 :: size_t, m_full = True\<rparr>"
  have i: "cb_inv ?b" by (simp add: cb_inv_def)
  have f: "full ?b" by (simp add: full_def)
  have c: "contents ?b = [9, 7, 8]" by (simp add: contents_def size_cb_def upt_rec)
  have s: "put_full_spec 4 ?b =
      \<lparr>m_buf = [7, 8, 4], m_head = 0, m_tail = 0, m_maxSize = 3, m_full = True\<rparr>"
    by (simp add: put_full_spec_def Let_def)
  from overwrite_on_full [of "\<lambda>k. 0" 0 ?b 4, THEN conjunct2, rule_format, OF i f]
  show ?thesis using i f by (simp add: s c)
qed

text \<open>
  Claim C3. On a well-formed empty buffer, \<open>put x\<close> followed by \<open>get\<close> returns
  exactly \<open>x\<close>, neither step faults, and the buffer is empty again.
\<close>

theorem put_get_roundtrip:
  assumes "cb_inv b" and "empty_cb b"
  shows "\<exists>b1 b2. put x b = Inr b1 \<and> get T0 b1 = Inr (x, b2) \<and> empty_cb b2"
proof -
  from assms(1) obtain b1 where p: "put x b = Inr b1" by (simp add: put_ok)
  with assms(1) have i: "cb_inv b1" and e: "\<not> empty_cb b1"
    by (simp_all add: put_inv put_not_empty)
  from assms have ht: "m_head b = m_tail b" and nf: "\<not> m_full b"
    by (auto simp: empty_cb_def split: if_splits)
  from assms(1) have len: "unat (m_head b) < length (m_buf b)"
    by (simp add: cb_inv_def word_less_nat_alt)
  from p assms(1) have b1: "m_buf b1 = (m_buf b)[unat (m_head b) := x]" 
    "m_tail b1 = m_tail b" "m_head b1 = (m_head b + 1) mod m_maxSize b" "m_maxSize b1 = m_maxSize b"
    using nf by (auto simp: put_ok)
  have g: "get T0 b1 = Inr (x, b1\<lparr>m_full := False, m_tail := (m_tail b1 + 1) mod m_maxSize b1\<rparr>)"
    using get_ok [OF i e, of T0] b1 ht len by simp
  have "empty_cb (b1\<lparr>m_full := False, m_tail := (m_tail b1 + 1) mod m_maxSize b1\<rparr>)"
    using b1 ht by (simp add: empty_cb_def)
  with p g show ?thesis by blast
qed

theorem put_get_roundtrip_witness:
  "cb_inv \<lparr>m_buf = [7, 8, 9 :: int], m_head = 2, m_tail = 2, m_maxSize = 3, m_full = False\<rparr> \<and>
   empty_cb \<lparr>m_buf = [7, 8, 9 :: int], m_head = 2, m_tail = 2, m_maxSize = 3, m_full = False\<rparr> \<and>
   (\<exists>b1 b2. put 5 \<lparr>m_buf = [7, 8, 9 :: int], m_head = 2, m_tail = 2, m_maxSize = 3, m_full = False\<rparr> = Inr b1
      \<and> get 0 b1 = Inr (5, b2) \<and> empty_cb b2)"
proof -
  let ?b = "\<lparr>m_buf = [7, 8, 9 :: int], m_head = 2, m_tail = 2, m_maxSize = 3 :: size_t, m_full = False\<rparr>"
  have i: "cb_inv ?b" by (simp add: cb_inv_def)
  have e: "empty_cb ?b" by (simp add: empty_cb_def)
  from i e put_get_roundtrip [OF i e, of 5 0] show ?thesis by simp
qed

text \<open>
  Claim C4. On a well-formed state \<open>size\<close> is the capacity when the flag is set and
  otherwise \<open>(head - tail) mod capacity\<close>, the remainder taken in the integers: the
  two branches of the source compute that value, and the wrap-around of
  \<^verbatim>\<open>m_maxSize + m_head\<close> does not change it.
\<close>

theorem size_formula:
  assumes "cb_inv b"
  shows "uint (size_cb b) =
     (if full b then uint (capacity b)
      else (uint (m_head b) - uint (m_tail b)) mod uint (capacity b))"
proof (cases "m_full b")
  case True
  with unat_size_cb [OF assms] have "size_cb b = m_maxSize b"
    by (simp add: word_unat_eq_iff)
  with True show ?thesis by (simp add: full_def capacity_def)
next
  case False
  let ?C = "unat (m_maxSize b)" and ?H = "unat (m_head b)" and ?T = "unat (m_tail b)"
  from cb_inv_unat [OF assms] have lt: "?T < ?C" "?H < ?C" by simp_all
  then have "int ((?C + ?H - ?T) mod ?C) = (int ?C + (int ?H - int ?T)) mod int ?C"
    by (simp add: zmod_int of_nat_diff algebra_simps)
  also have "\<dots> = (int ?H - int ?T) mod int ?C" by simp
  finally have m: "int ((?C + ?H - ?T) mod ?C) = (int ?H - int ?T) mod int ?C" .
  have "uint (size_cb b) = int (unat (size_cb b))" by (rule uint_nat)
  also have "\<dots> = int ((?C + ?H - ?T) mod ?C)"
    using unat_size_cb [OF assms] False by (simp only: if_False)
  also note m
  also have "(int ?H - int ?T) mod int ?C =
      (uint (m_head b) - uint (m_tail b)) mod uint (m_maxSize b)"
    by (simp only: uint_nat)
  finally show ?thesis using False by (simp only: full_def capacity_def if_False)
qed

theorem size_formula_witness:
  "cb_inv \<lparr>m_buf = [7, 8, 9 :: int], m_head = 0, m_tail = 2, m_maxSize = 3, m_full = False\<rparr> \<and>
   uint (size_cb \<lparr>m_buf = [7, 8, 9 :: int], m_head = 0, m_tail = 2, m_maxSize = 3, m_full = False\<rparr>) = 1 \<and>
   (0 - 2) mod (3::int) = 1"
proof -
  let ?b = "\<lparr>m_buf = [7, 8, 9 :: int], m_head = 0, m_tail = 2, m_maxSize = 3 :: size_t, m_full = False\<rparr>"
  have i: "cb_inv ?b" by (simp add: cb_inv_def)
  from i size_formula [OF i] show ?thesis by (simp add: full_def capacity_def)
qed

text \<open>
  Claim C5. \<open>get\<close> on an empty buffer returns \<open>T()\<close> and the state it was given:
  cursors, flag and slots unchanged, no fault. This holds for every state.
\<close>

theorem get_on_empty: "empty_cb b \<Longrightarrow> get T0 b = Inr (T0, b)"
  by (simp add: get_def)

theorem get_on_empty_witness:
  "empty_cb \<lparr>m_buf = [7, 8, 9 :: int], m_head = 1, m_tail = 1, m_maxSize = 3, m_full = False\<rparr> \<and>
   get 0 \<lparr>m_buf = [7, 8, 9 :: int], m_head = 1, m_tail = 1, m_maxSize = 3, m_full = False\<rparr> =
     Inr (0, \<lparr>m_buf = [7, 8, 9], m_head = 1, m_tail = 1, m_maxSize = 3, m_full = False\<rparr>)"
proof -
  have e: "empty_cb \<lparr>m_buf = [7, 8, 9 :: int], m_head = 1, m_tail = 1, m_maxSize = 3, m_full = False\<rparr>"
    by (simp add: empty_cb_def)
  from e get_on_empty [OF e, of 0] show ?thesis by simp
qed

text \<open>
  Claim C6. On a well-formed buffer (or an empty one, whatever its capacity) and a
  destination array with room for the elements transferred, \<open>read\<close> does not fault
  (no subscript outside the ring or the destination), returns the count
  \<open>min n (size)\<close>, puts the oldest unread elements, in order, into the first slots of
  the destination and leaves its other slots as they were; the buffer keeps the rest.
\<close>

theorem read_returns_min:
  assumes "cb_inv b \<or> empty_cb b"
    and "unat (min n (size_cb b)) \<le> length dest"
  shows "\<exists>b'. read T0 dest n b =
       Inr (min n (size_cb b),
            take (unat (min n (size_cb b))) (contents b) @ drop (unat (min n (size_cb b))) dest,
            b') \<and>
     contents b' = drop (unat (min n (size_cb b))) (contents b) \<and>
     m_buf b' = m_buf b \<and> m_head b' = m_head b \<and> m_maxSize b' = m_maxSize b"
proof (cases "empty_cb b")
  case True
  then have z: "size_cb b = 0" by (rule size_of_empty)
  then have m: "min n (size_cb b) = 0" by simp
  have "read T0 dest n b = Inr (0, dest, b)"
    using True by (simp add: read_def read_loop.simps [of T0 dest n 0 b])
  then show ?thesis by (simp add: m contents_def z)
next
  case False
  with assms(1) have i: "cb_inv b" by simp
  from assms(2) have room: "unat (0 :: size_t) + min (unat n - unat (0 :: size_t)) (unat (size_cb b))
      \<le> length dest" by (simp add: unat_min)
  from read_loop_spec [OF i _ room, of T0] obtain cnt b' where
    r: "read_loop T0 dest n 0 b =
         Inr (cnt, take (min (unat n) (unat (size_cb b))) (contents b) @
                drop (min (unat n) (unat (size_cb b))) dest, b')"
    and c: "unat cnt = min (unat n) (unat (size_cb b))"
    and rest: "contents b' = drop (min (unat n) (unat (size_cb b))) (contents b)"
       "m_buf b' = m_buf b" "m_head b' = m_head b" "m_maxSize b' = m_maxSize b"
    by auto
  from c have "cnt = min n (size_cb b)" by (simp add: word_unat_eq_iff unat_min)
  with r rest show ?thesis by (simp add: read_def unat_min)
qed

theorem read_returns_min_witness:
  "cb_inv \<lparr>m_buf = [7, 8, 9 :: int], m_head = 1, m_tail = 2, m_maxSize = 3, m_full = False\<rparr> \<and>
   size_cb \<lparr>m_buf = [7, 8, 9 :: int], m_head = 1, m_tail = 2, m_maxSize = 3, m_full = False\<rparr> = 2 \<and>
   (\<exists>b'. read 0 [0, 0, 0, 0] 4
        \<lparr>m_buf = [7, 8, 9 :: int], m_head = 1, m_tail = 2, m_maxSize = 3, m_full = False\<rparr> =
      Inr (2, [9, 7, 0, 0], b'))"
proof -
  let ?b = "\<lparr>m_buf = [7, 8, 9 :: int], m_head = 1, m_tail = 2, m_maxSize = 3 :: size_t, m_full = False\<rparr>"
  have i: "cb_inv ?b \<or> empty_cb ?b" by (simp add: cb_inv_def)
  have s: "size_cb ?b = 2" by (simp add: size_cb_def word_le_nat_alt)
  have c: "contents ?b = [9, 7]" by (simp add: contents_def s upt_rec)
  have l: "unat (min 4 (size_cb ?b)) \<le> length [0, 0, 0, 0 :: int]" by (simp add: s)
  from read_returns_min [OF i l, of 0] show ?thesis
    by (auto simp: s c cb_inv_def)
qed

text \<open>
  Claim C7. In every state of a buffer constructed with a positive capacity and used
  through \<open>put\<close>, \<open>get\<close>, \<open>reset\<close>, \<open>write\<close> and \<open>read\<close> (the queries do not
  change the state), both cursors are below the capacity, and the buffer is empty, and
  of size 0, exactly when the flag is clear and the cursors are equal. None of the
  operations faults there (the bulk ones given an array of at least \<open>sz\<close> slots), so
  each leads to such a state again.
\<close>

theorem operations_preserve_invariants:
  assumes "reachable b"
  shows "0 \<le> m_head b \<and> m_head b < capacity b \<and> 0 \<le> m_tail b \<and> m_tail b < capacity b \<and>
     (empty_cb b \<longleftrightarrow> \<not> full b \<and> m_head b = m_tail b) \<and>
     (size_cb b = 0 \<longleftrightarrow> \<not> full b \<and> m_head b = m_tail b) \<and>
     length (m_buf b) = unat (capacity b) \<and>
     (\<exists>b'. put x b = Inr b' \<and> reachable b') \<and>
     (\<exists>v b'. get T0 b = Inr (v, b') \<and> reachable b') \<and>
     reachable (reset b) \<and>
     (unat sz \<le> length items \<longrightarrow> (\<exists>b'. write_cb items sz b = Inr b' \<and> reachable b')) \<and>
     (unat sz \<le> length dest \<longrightarrow>
        (\<exists>cnt dest' b'. read T0 dest sz b = Inr (cnt, dest', b') \<and> reachable b'))"
proof -
  from assms have i: "cb_inv b" by (rule reachable_inv)
  have e: "empty_cb b \<longleftrightarrow> \<not> full b \<and> m_head b = m_tail b"
    by (simp add: empty_cb_def full_def)
  have p: "\<exists>b'. put x b = Inr b' \<and> reachable b'"
    using assms i by (auto simp: put_ok intro: reachable.r_put)
  have g: "\<exists>v b'. get T0 b = Inr (v, b') \<and> reachable b'"
  proof (cases "empty_cb b")
    case True
    then have "get T0 b = Inr (T0, b)" by (rule get_empty)
    with assms show ?thesis by simp
  next
    case False
    with assms get_ok [OF i False, of T0] show ?thesis
      by (auto intro: reachable.r_get)
  qed
  have w: "\<exists>b'. write_cb items sz b = Inr b' \<and> reachable b'" if "unat sz \<le> length items"
  proof -
    from write_loop_ok [OF i that, of 0] obtain b' where "write_cb items sz b = Inr b'"
      by (auto simp: write_cb_def)
    with assms show ?thesis by (auto intro: reachable.r_write)
  qed
  have r: "\<exists>cnt dest' b'. read T0 dest sz b = Inr (cnt, dest', b') \<and> reachable b'"
    if "unat sz \<le> length dest"
  proof -
    from that have room:
      "unat (0 :: size_t) + min (unat sz - unat (0 :: size_t)) (unat (size_cb b)) \<le> length dest"
      by simp
    from read_loop_spec [OF i _ room, of T0] obtain cnt dest' b' where
      "read T0 dest sz b = Inr (cnt, dest', b')" by (auto simp: read_def)
    with assms show ?thesis by (auto intro: reachable.r_read)
  qed
  from i e p g w r assms show ?thesis
    by (simp add: cb_inv_def capacity_def empty_iff_size [OF i, symmetric] reachable.r_reset)
qed

theorem operations_preserve_invariants_witness:
  "reachable \<lparr>m_buf = [0, 0, 0 :: int], m_head = 0, m_tail = 0, m_maxSize = 3, m_full = False\<rparr> \<and>
   m_head \<lparr>m_buf = [0, 0, 0 :: int], m_head = 0, m_tail = 0, m_maxSize = 3, m_full = False\<rparr>
     < capacity \<lparr>m_buf = [0, 0, 0 :: int], m_head = 0, m_tail = 0, m_maxSize = 3, m_full = False\<rparr> \<and>
   (\<exists>b'. put 5 \<lparr>m_buf = [0, 0, 0 :: int], m_head = 0, m_tail = 0, m_maxSize = 3, m_full = False\<rparr>
            = Inr b' \<and> reachable b') \<and>
   (\<exists>b'. write_cb [1, 2] 2
            \<lparr>m_buf = [0, 0, 0 :: int], m_head = 0, m_tail = 0, m_maxSize = 3, m_full = False\<rparr>
            = Inr b' \<and> reachable b') \<and>
   (\<exists>cnt dest' b'. read 0 [0, 0] 2
            \<lparr>m_buf = [0, 0, 0 :: int], m_head = 0, m_tail = 0, m_maxSize = 3, m_full = False\<rparr>
            = Inr (cnt, dest', b') \<and> reachable b')"
proof -
  let ?b = "\<lparr>m_buf = [0, 0, 0 :: int], m_head = 0, m_tail = 0, m_maxSize = 3 :: size_t, m_full = False\<rparr>"
  have "CircularBuff (\<lambda>k. 0 :: int) 3 = Inr ?b" by (simp add: CircularBuff_def upt_rec)
  then have r: "reachable ?b" by (rule reachable.r_ctor [rotated]) simp
  from operations_preserve_invariants [OF r, of 5 0 2 "[1, 2]" "[0, 0]"] r
  show ?thesis by simp
qed

text \<open>
  Claim C8. After \<open>reset\<close>, on any state, the buffer is empty, its size is 0 and its
  capacity is what it was; the slots keep their contents, and \<open>get\<close> returns
  \<open>T()\<close> and leaves the state as it is (so every later \<open>get\<close> does too): no slot is
  read.
\<close>

theorem reset_yields_empty:
  "empty_cb (reset b) \<and> size_cb (reset b) = 0 \<and> capacity (reset b) = capacity b \<and>
   m_buf (reset b) = m_buf b \<and> get T0 (reset b) = Inr (T0, reset b)"
  by (simp add: reset_def empty_cb_def size_cb_def capacity_def get_def)

text \<open>
  Claim C9. On a well-formed state \<open>put\<close> does not fault, and afterwards the
  buffer is not empty and its size is at least 1.
\<close>

theorem put_nonempty:
  assumes "cb_inv b"
  shows "\<exists>b'. put x b = Inr b' \<and> \<not> empty_cb b' \<and> 1 \<le> size_cb b'"
proof -
  from assms obtain b' where p: "put x b = Inr b'" by (simp add: put_ok)
  with assms have i: "cb_inv b'" and e: "\<not> empty_cb b'"
    by (simp_all add: put_inv put_not_empty)
  then have "size_cb b' \<noteq> 0" by (simp add: empty_iff_size)
  then have "1 \<le> size_cb b'" by (simp add: word_le_nat_alt unat_gt_0 Suc_le_eq)
  with p e show ?thesis by simp
qed

theorem put_nonempty_witness:
  "cb_inv \<lparr>m_buf = [7, 8, 9 :: int], m_head = 1, m_tail = 1, m_maxSize = 3, m_full = True\<rparr> \<and>
   (\<exists>b'. put 5 \<lparr>m_buf = [7, 8, 9 :: int], m_head = 1, m_tail = 1, m_maxSize = 3, m_full = True\<rparr> = Inr b'
      \<and> \<not> empty_cb b' \<and> 1 \<le> size_cb b')"
proof -
  let ?b = "\<lparr>m_buf = [7, 8, 9 :: int], m_head = 1, m_tail = 1, m_maxSize = 3 :: size_t, m_full = True\<rparr>"
  have i: "cb_inv ?b" by (simp add: cb_inv_def)
  from i put_nonempty [OF i, of 5] show ?thesis by simp
qed

text \<open>
  Claim C10. \<open>get\<close> on a well-formed, non-empty buffer returns the slot at the tail
  cursor and leaves the flag clear, also when the buffer was full.
\<close>

theorem get_clears_full:
  "cb_inv b \<Longrightarrow> \<not> empty_cb b \<Longrightarrow>
   \<exists>b'. get T0 b = Inr (m_buf b ! unat (m_tail b), b') \<and> full b' = False"
  by (simp add: get_ok full_def)

theorem get_clears_full_witness:
  "cb_inv \<lparr>m_buf = [7, 8, 9 :: int], m_head = 1, m_tail = 1, m_maxSize = 3, m_full = True\<rparr> \<and>
   \<not> empty_cb \<lparr>m_buf = [7, 8, 9 :: int], m_head = 1, m_tail = 1, m_maxSize = 3, m_full = True\<rparr> \<and>
   (\<exists>b'. get 0 \<lparr>m_buf = [7, 8, 9 :: int], m_head = 1, m_tail = 1, m_maxSize = 3, m_full = True\<rparr> =
       Inr (8, b') \<and> full b' = False)"
proof -
  let ?b = "\<lparr>m_buf = [7, 8, 9 :: int], m_head = 1, m_tail = 1, m_maxSize = 3 :: size_t, m_full = True\<rparr>"
  have i: "cb_inv ?b" by (simp add: cb_inv_def)
  have e: "\<not> empty_cb ?b" by (simp add: empty_cb_def)
  from i e get_clears_full [OF i e, of 0] show ?thesis by simp
qed

end
